theory Spec2Isabelle
  imports Complex_Main "HOL-Library.Signed_Division"
begin

section \<open>Data model\<close>

text \<open>
  A repository object as the search endpoints return it. Only the fields that the
  functions below read are kept: the identifier and the two score fields. The identifier
  is a number on the REST endpoint and a string on the GraphQL endpoint, hence the type
  parameter.
\<close>

record 'i repo =
  repo_id :: 'i
  stargazers_count :: int
  forks_count :: int

text \<open>
  The \<open>property\<close> argument is the name of the score field: \<open>'stargazers_count'\<close> or
  \<open>'forks_count'\<close>. \<open>prop_of property r\<close> is the source's \<open>r[property]\<close>.
\<close>

datatype property = Stargazers_count | Forks_count

fun prop_of :: "property \<Rightarrow> 'i repo \<Rightarrow> int" where
  "prop_of Stargazers_count r = stargazers_count r"
| "prop_of Forks_count r = forks_count r"

text \<open>A thrown JavaScript \<open>Error\<close>, with its message.\<close>

datatype error = Error (message: string)

section \<open>The index calculator (\<open>calculateHIndex\<close>)\<close>

text \<open>
  \<open>[...repos].sort((a, b) => b[property] - a[property])\<close>: a stable sort of a copy, in
  descending order of the score. \<open>sort_key\<close> is insertion sort, which is stable.
\<close>

definition sortedRepos :: "'i repo list \<Rightarrow> property \<Rightarrow> 'i repo list" where
  "sortedRepos repos property = sort_key (\<lambda>r. - prop_of property r) repos"

text \<open>
  The scanning loop \<open>for (let i = 0; i < sortedRepos.length; i++)\<close>, on the part of the
  sorted list from index \<open>i\<close> on, with the current value of \<open>hIndex\<close>. The \<open>else\<close> branch is
  the \<open>break\<close>.
\<close>

fun hIndex_scan :: "property \<Rightarrow> 'i repo list \<Rightarrow> nat \<Rightarrow> nat \<Rightarrow> nat" where
  "hIndex_scan property [] i hIndex = hIndex"
| "hIndex_scan property (r # rest) i hIndex =
     (if prop_of property r \<ge> int i + 1
      then hIndex_scan property rest (i + 1) (i + 1)
      else hIndex)"

definition calculateHIndex :: "'i repo list \<Rightarrow> property \<Rightarrow> nat" where
  "calculateHIndex repos property = hIndex_scan property (sortedRepos repos property) 0 0"

text \<open>
  The specification's side of the H-Index: the number of items of a list whose score
  in the field is at least \<open>k\<close>.
\<close>

definition scoring_at_least :: "'i repo list \<Rightarrow> property \<Rightarrow> nat \<Rightarrow> nat" where
  "scoring_at_least repos property k =
     length (filter (\<lambda>r. int k \<le> prop_of property r) repos)"

section \<open>Rendering numbers in messages\<close>

text \<open>A non-negative number in a template literal: its decimal digits.\<close>

fun decimal :: "nat \<Rightarrow> string" where
  "decimal n =
     (if n < 10 then [''0123456789'' ! n]
      else decimal (n div 10) @ [''0123456789'' ! (n mod 10)])"

declare decimal.simps [simp del]

section \<open>The REST fetch strategy (\<open>fetchAndCalculateHIndexREST\<close>)\<close>

text \<open>
  What \<open>fetch\<close> gives for one page request: the promise is rejected (a network failure,
  with its message), the response is not \<open>ok\<close> (status and body text), or the body parses
  to \<open>{total_count, items}\<close>. A missing \<open>items\<close> takes the same branch as an empty one
  (\<open>data.items && data.items.length > 0\<close>), so it is modelled as the empty list.
  The upstream is a function from the requested page number to the response.
\<close>

record 'i search_data =
  total_count :: int
  items :: "'i repo list"

datatype 'i rest_response =
    Rejected string
  | NotOk nat string
  | OkJson "'i search_data"

text \<open>The local variables of the loop.\<close>

record 'i rest_state =
  repos :: "'i repo list"
  page :: nat
  currentHIndex :: nat
  hasMoreRepos :: bool
  reachedHIndex :: bool
  totalItems :: int

definition perPage :: nat where
  "perPage = 100"

definition rest_init :: "'i rest_state" where
  "rest_init = \<lparr>repos = [], page = 1, currentHIndex = 0, hasMoreRepos = True,
                 reachedHIndex = False, totalItems = 0\<rparr>"

text \<open>The loop condition \<open>hasMoreRepos && page <= 10 && !reachedHIndex\<close>.\<close>

definition rest_cond :: "'i rest_state \<Rightarrow> bool" where
  "rest_cond s = (hasMoreRepos s \<and> page s \<le> 10 \<and> \<not> reachedHIndex s)"

text \<open>
  The loop body after a successful response \<open>data\<close>. The index \<open>currentHIndex - 1\<close> is
  read only behind \<open>repos.length >= currentHIndex * 2\<close> in a branch where
  \<open>currentHIndex\<close> is positive, so it is in range whenever it is read.
\<close>

definition rest_body :: "property \<Rightarrow> 'i search_data \<Rightarrow> 'i rest_state \<Rightarrow> 'i rest_state" where
  "rest_body property data s =
     (if items data \<noteq> [] then
        (let repos' = repos s @ items data;
             tempHIndex = calculateHIndex repos' property;
             currentHIndex' =
               (if tempHIndex > currentHIndex s then tempHIndex else currentHIndex s);
             reachedHIndex' =
               (if tempHIndex > currentHIndex s then
                  (if length repos' \<ge> currentHIndex' * 2 \<and>
                      prop_of property (repos' ! (currentHIndex' - 1)) = int currentHIndex' \<and>
                      (int (length repos') = total_count data \<or>
                       length repos' \<ge> currentHIndex' * 3)
                   then True else reachedHIndex s)
                else if length repos' \<ge> perPage * 2 \<and> tempHIndex = currentHIndex s
                then True else reachedHIndex s);
             hasMoreRepos' =
               (if length (items data) < perPage then False else hasMoreRepos s)
         in \<lparr>repos = repos', page = page s + 1, currentHIndex = currentHIndex',
             hasMoreRepos = hasMoreRepos', reachedHIndex = reachedHIndex',
             totalItems = total_count data\<rparr>)
      else s\<lparr>totalItems := total_count data, hasMoreRepos := False, page := page s + 1\<rparr>)"

lemma page_rest_body: "page (rest_body property data s) = page s + 1"
  by (simp add: rest_body_def Let_def)

text \<open>
  The \<open>while\<close> loop. Besides the state it carries the list of page numbers requested so
  far; the result is that list with either the thrown error or the state at loop exit.
\<close>

function rest_loop ::
  "property \<Rightarrow> (nat \<Rightarrow> 'i rest_response) \<Rightarrow> 'i rest_state \<Rightarrow> nat list
     \<Rightarrow> nat list \<times> (error + 'i rest_state)" where
  "rest_loop property upstream s requested =
     (if rest_cond s then
        (case upstream (page s) of
           Rejected msg \<Rightarrow> (requested @ [page s], Inl (Error msg))
         | NotOk status errorText \<Rightarrow>
             (requested @ [page s],
              Inl (Error (''GitHub API returned '' @ decimal status @ '': '' @ errorText)))
         | OkJson data \<Rightarrow>
             rest_loop property upstream (rest_body property data s) (requested @ [page s]))
      else (requested, Inr s))"
  by pat_completeness auto
termination
  by (relation "measure (\<lambda>(property, upstream, s, requested). 11 - page s)")
     (auto simp: rest_cond_def page_rest_body)

declare rest_loop.simps [simp del]

record 'i hindex_result =
  hIndex :: nat
  result_repos :: "'i repo list"
  result_totalItems :: int
  totalFetched :: int

definition fetchAndCalculateHIndexREST ::
  "property \<Rightarrow> (nat \<Rightarrow> 'i rest_response) \<Rightarrow> nat list \<times> (error + 'i hindex_result)" where
  "fetchAndCalculateHIndexREST property upstream =
     (case rest_loop property upstream rest_init [] of
        (requested, Inl e) \<Rightarrow> (requested, Inl e)
      | (requested, Inr s) \<Rightarrow>
          (requested,
           Inr \<lparr>hIndex = currentHIndex s, result_repos = repos s,
                result_totalItems = totalItems s,
                totalFetched = min (totalItems s) (int (length (repos s)))\<rparr>))"

text \<open>
  The states in which the loop of one call tests its condition: the initial state, and
  the state after the body whenever the condition held and the page request succeeded.
\<close>

inductive rest_reach :: "property \<Rightarrow> (nat \<Rightarrow> 'i rest_response) \<Rightarrow> 'i rest_state \<Rightarrow> bool"
  for property :: property and upstream :: "nat \<Rightarrow> 'i rest_response" where
  rest_reach_init: "rest_reach property upstream rest_init"
| rest_reach_step:
    "rest_reach property upstream s \<Longrightarrow> rest_cond s \<Longrightarrow> upstream (page s) = OkJson data
       \<Longrightarrow> rest_reach property upstream (rest_body property data s)"




section \<open>The GraphQL fetch strategy (\<open>fetchAndCalculateHIndexGraphQL\<close>)\<close>

text \<open>
  A node of the search result and the \<open>search\<close> object of a response. Each node is
  transformed into the REST format before it is accumulated.
\<close>

record 'i node =
  node_id :: 'i
  stargazerCount :: int
  forkCount :: int

record 'i search_result =
  search_repositoryCount :: int
  pageInfo_hasNextPage :: bool
  pageInfo_endCursor :: "string option"
  nodes :: "'i node list"

text \<open>
  What one request gives: a rejected promise, a response that is not \<open>ok\<close>, a body with an
  \<open>errors\<close> array (its first message), or the data. The cursor transport is a sequence of
  responses: \<open>upstream k\<close> answers the request number \<open>k\<close> of the call (counted from 0),
  whatever cursor that request carries.
\<close>

datatype 'i graphql_response =
    GraphQLRejected string
  | GraphQLNotOk nat string
  | GraphQLErrors string
  | GraphQLData "'i search_result"

definition to_rest_format :: "'i node \<Rightarrow> 'i repo" where
  "to_rest_format n =
     \<lparr>repo_id = node_id n, stargazers_count = stargazerCount n, forks_count = forkCount n\<rparr>"

record 'i graphql_state =
  allRepos :: "'i repo list"
  hasNextPage :: bool
  endCursor :: "string option"
  totalCount :: int

definition graphql_init :: "'i graphql_state" where
  "graphql_init = \<lparr>allRepos = [], hasNextPage = True, endCursor = None, totalCount = 0\<rparr>"

text \<open>The first half of the loop body: accumulate the page, update the pagination state.\<close>

definition graphql_accumulate :: "'i search_result \<Rightarrow> 'i graphql_state \<Rightarrow> 'i graphql_state" where
  "graphql_accumulate searchData s =
     \<lparr>allRepos = allRepos s @ map to_rest_format (nodes searchData),
      hasNextPage = pageInfo_hasNextPage searchData,
      endCursor = pageInfo_endCursor searchData,
      totalCount = search_repositoryCount searchData\<rparr>"

text \<open>The two \<open>break\<close> tests at the end of the loop body.\<close>

definition graphql_break :: "property \<Rightarrow> 'i graphql_state \<Rightarrow> bool" where
  "graphql_break property s =
     (let currentHIndex = calculateHIndex (allRepos s) property in
        if length (allRepos s) \<ge> currentHIndex * 3 \<and> length (allRepos s) \<ge> 100 then True
        else if length (allRepos s) \<ge> 500 then True
        else False)"

text \<open>
  \<open>while (hasNextPage)\<close> has no bound of its own and runs for as long as the upstream
  keeps reporting a next page, so the loop takes fuel: one unit per test of the loop
  condition. \<open>Pending s\<close> is the loop standing at its head in state \<open>s\<close> with the fuel used
  up; \<open>Thrown\<close> and \<open>Returned\<close> are the two ways in which it ends.
\<close>

datatype ('s, 'r) outcome = Pending 's | Thrown error | Returned 'r

fun graphql_loop ::
  "nat \<Rightarrow> property \<Rightarrow> (nat \<Rightarrow> 'i graphql_response) \<Rightarrow> nat \<Rightarrow> 'i graphql_state
     \<Rightarrow> ('i graphql_state, 'i graphql_state) outcome" where
  "graphql_loop 0 property upstream k s = Pending s"
| "graphql_loop (Suc fuel) property upstream k s =
     (if hasNextPage s then
        (case upstream k of
           GraphQLRejected msg \<Rightarrow> Thrown (Error msg)
         | GraphQLNotOk status errorText \<Rightarrow>
             Thrown (Error (''GitHub GraphQL API returned '' @ decimal status @ '': '' @ errorText))
         | GraphQLErrors msg \<Rightarrow> Thrown (Error (''GraphQL Error: '' @ msg))
         | GraphQLData searchData \<Rightarrow>
             (let s' = graphql_accumulate searchData s in
                if graphql_break property s' then Returned s'
                else graphql_loop fuel property upstream (k + 1) s'))
      else Returned s)"

definition fetchAndCalculateHIndexGraphQL ::
  "nat \<Rightarrow> property \<Rightarrow> (nat \<Rightarrow> 'i graphql_response)
     \<Rightarrow> ('i graphql_state, 'i hindex_result) outcome" where
  "fetchAndCalculateHIndexGraphQL fuel property upstream =
     (case graphql_loop fuel property upstream 0 graphql_init of
        Pending s \<Rightarrow> Pending s
      | Thrown e \<Rightarrow> Thrown e
      | Returned s \<Rightarrow>
          Returned \<lparr>hIndex = calculateHIndex (allRepos s) property, result_repos = allRepos s,
                    result_totalItems = totalCount s,
                    totalFetched = int (length (allRepos s))\<rparr>)"

text \<open>
  The length of the accumulated collection at the point a run has come to: at the loop
  head when the fuel is used up, or at the return. A thrown error leaves no collection.
\<close>

fun accumulated_length :: "('i graphql_state, 'i hindex_result) outcome \<Rightarrow> nat" where
  "accumulated_length (Pending s) = length (allRepos s)"
| "accumulated_length (Thrown e) = 0"
| "accumulated_length (Returned r) = length (result_repos r)"

section \<open>The time window generator (\<open>generateTimeWindows\<close>)\<close>

text \<open>
  A calendar date \<open>YYYY-MM-DD\<close>, which the source writes as a string, by its three
  numbers; a time window by its two dates. Dates are compared as the calendar orders them.
\<close>

record date =
  yyyy :: int
  mm :: int
  dd :: int

record time_window =
  window_start :: date
  window_end :: date

definition date_le :: "date \<Rightarrow> date \<Rightarrow> bool" where
  "date_le a b =
     (yyyy a < yyyy b \<or>
      (yyyy a = yyyy b \<and> (mm a < mm b \<or> (mm a = mm b \<and> dd a \<le> dd b))))"

definition window_contains :: "time_window \<Rightarrow> date \<Rightarrow> bool" where
  "window_contains w d = (date_le (window_start w) d \<and> date_le d (window_end w))"

text \<open>\<open>%\<close> of JavaScript truncates towards zero, as \<open>smod\<close> does.\<close>

definition isLeapYear :: "int \<Rightarrow> bool" where
  "isLeapYear year = ((year smod 4 = 0 \<and> year smod 100 \<noteq> 0) \<or> year smod 400 = 0)"

definition endDay :: "int \<Rightarrow> int \<Rightarrow> int" where
  "endDay year endMonth =
     (if endMonth = 2 then (if isLeapYear year then 29 else 28)
      else if endMonth \<in> set [4, 6, 9, 11] then 30 else 31)"

text \<open>
  The current date is a parameter, with its month already counted from 1
  (\<open>getMonth() + 1\<close>). \<open>Math.ceil(currentMonth / 3)\<close> on an integer is
  \<open>(currentMonth + 2) div 3\<close> (lemma \<open>currentQuarter_ceiling\<close> below). The years are the
  values of \<open>parseInt\<close>; the \<open>for\<close> loops run over \<open>[startYear..endYear]\<close>, \<open>[1..4]\<close> and
  \<open>[1..12]\<close>, and \<open>continue\<close> contributes no window.
\<close>

definition generateTimeWindows :: "int \<Rightarrow> int \<Rightarrow> string \<Rightarrow> date \<Rightarrow> time_window list" where
  "generateTimeWindows startYear endYear granularity currentDate =
     (let currentYear = yyyy currentDate;
          currentMonth = mm currentDate;
          currentQuarter = (currentMonth + 2) div 3
      in
        if granularity = ''year'' then
          concat (map (\<lambda>year.
            if year = currentYear then []
            else [\<lparr>window_start = \<lparr>yyyy = year, mm = 1, dd = 1\<rparr>,
                   window_end = \<lparr>yyyy = year, mm = 12, dd = 31\<rparr>\<rparr>])
            [startYear..endYear])
        else if granularity = ''quarter'' then
          concat (map (\<lambda>year.
            concat (map (\<lambda>quarter.
              if year = currentYear \<and> quarter \<ge> currentQuarter then []
              else
                (let startMonth = (quarter - 1) * 3 + 1;
                     endMonth = quarter * 3
                 in [\<lparr>window_start = \<lparr>yyyy = year, mm = startMonth, dd = 1\<rparr>,
                       window_end = \<lparr>yyyy = year, mm = endMonth, dd = endDay year endMonth\<rparr>\<rparr>]))
              [1..4]))
            [startYear..endYear])
        else if granularity = ''month'' then
          concat (map (\<lambda>year.
            concat (map (\<lambda>month.
              if year = currentYear \<and> month \<ge> currentMonth then []
              else [\<lparr>window_start = \<lparr>yyyy = year, mm = month, dd = 1\<rparr>,
                     window_end = \<lparr>yyyy = year, mm = month, dd = endDay year month\<rparr>\<rparr>])
              [1..12]))
            [startYear..endYear])
        else [])"

text \<open>
  The specification's side of the end day: the last day of a calendar month, with the
  Gregorian leap-year rule stated by divisibility.
\<close>

definition last_day_of_month :: "int \<Rightarrow> int \<Rightarrow> int" where
  "last_day_of_month year month =
     (if month = 4 \<or> month = 6 \<or> month = 9 \<or> month = 11 then 30
      else if month = 2 then
        (if 4 dvd year \<and> (\<not> 100 dvd year \<or> 400 dvd year) then 29 else 28)
      else 31)"

section \<open>The merge of the two fetch passes (\<open>processSearchTerm\<close>)\<close>

text \<open>
  A JavaScript \<open>Map\<close> keeps its entries in the order in which their keys were first
  inserted; \<open>set\<close> on a key that is present replaces the value in place. \<open>new Map(entries)\<close>
  sets the entries from left to right; \<open>values()\<close> lists the values in the map's order.
\<close>

fun Map_set :: "('k \<times> 'v) list \<Rightarrow> 'k \<Rightarrow> 'v \<Rightarrow> ('k \<times> 'v) list" where
  "Map_set [] k v = [(k, v)]"
| "Map_set ((k', v') # m) k v =
     (if k' = k then (k, v) # m else (k', v') # Map_set m k v)"

definition new_Map :: "('k \<times> 'v) list \<Rightarrow> ('k \<times> 'v) list" where
  "new_Map entries = foldl (\<lambda>m (k, v). Map_set m k v) [] entries"

definition Map_values :: "('k \<times> 'v) list \<Rightarrow> 'v list" where
  "Map_values m = map snd m"

text \<open>
  \<open>allRepos\<close> of \<open>processSearchTerm\<close> and \<open>processSearchTermForHIndex\<close>:
  \<open>[...new Map([...starResult.repos, ...forkResult.repos].map(repo => [repo.id, repo])).values()]\<close>.
\<close>

definition merged_allRepos :: "'i repo list \<Rightarrow> 'i repo list \<Rightarrow> 'i repo list" where
  "merged_allRepos starRepos forkRepos =
     Map_values (new_Map (map (\<lambda>repo. (repo_id repo, repo)) (starRepos @ forkRepos)))"

text \<open>The entries \<open>[repo.id, repo]\<close> that the \<open>Map\<close> is built from.\<close>

definition entries_of :: "'i repo list \<Rightarrow> ('i \<times> 'i repo) list" where
  "entries_of rs = map (\<lambda>repo. (repo_id repo, repo)) rs"

definition ids :: "'i repo list \<Rightarrow> 'i set" where
  "ids rs = repo_id ` set rs"

section \<open>The trend aggregator (\<open>compareSearchTerms\<close>)\<close>









section \<open>Concrete inputs\<close>

text \<open>Inputs at which the theorems below are instantiated.\<close>

definition short_page :: "nat search_result" where
  "short_page = \<lparr>search_repositoryCount = 5000, pageInfo_hasNextPage = True,
                  pageInfo_endCursor = Some ''Y3Vyc29y'',
                  nodes = replicate 99 \<lparr>node_id = 7, stargazerCount = 1000, forkCount = 0\<rparr>\<rparr>"

definition short_pages :: "nat \<Rightarrow> nat graphql_response" where
  "short_pages k = GraphQLData short_page"

definition twice_listed :: "nat repo list" where
  "twice_listed = [\<lparr>repo_id = 1, stargazers_count = 9, forks_count = 2\<rparr>,
                   \<lparr>repo_id = 1, stargazers_count = 9, forks_count = 2\<rparr>]"

definition star_pass :: "nat repo list" where
  "star_pass = [\<lparr>repo_id = 1, stargazers_count = 9, forks_count = 2\<rparr>,
                \<lparr>repo_id = 2, stargazers_count = 7, forks_count = 5\<rparr>]"

definition fork_pass :: "nat repo list" where
  "fork_pass = [\<lparr>repo_id = 2, stargazers_count = 8, forks_count = 6\<rparr>,
                \<lparr>repo_id = 3, stargazers_count = 1, forks_count = 4\<rparr>]"





definition small_page :: "nat search_data" where
  "small_page = \<lparr>total_count = 3,
                  items = [\<lparr>repo_id = 1, stargazers_count = 5, forks_count = 0\<rparr>,
                           \<lparr>repo_id = 2, stargazers_count = 3, forks_count = 1\<rparr>,
                           \<lparr>repo_id = 3, stargazers_count = 1, forks_count = 0\<rparr>]\<rparr>"

definition small_upstream :: "nat \<Rightarrow> nat rest_response" where
  "small_upstream k = OkJson small_page"

definition full_node_page :: "nat search_result" where
  "full_node_page = \<lparr>search_repositoryCount = 5000, pageInfo_hasNextPage = True,
                  pageInfo_endCursor = Some ''Y3Vyc29y'',
                  nodes = replicate 100 \<lparr>node_id = 7, stargazerCount = 1000, forkCount = 0\<rparr>\<rparr>"

definition full_node_pages :: "nat \<Rightarrow> nat graphql_response" where
  "full_node_pages k = GraphQLData full_node_page"

definition today :: date where
  "today = \<lparr>yyyy = 2026, mm = 11, dd = 2\<rparr>"

section \<open>Properties of the index calculator\<close>

lemma scoring_at_least_Cons:
  "scoring_at_least (r # rs) p k =
     (if int k \<le> prop_of p r then Suc (scoring_at_least rs p k) else scoring_at_least rs p k)"
  by (simp add: scoring_at_least_def)

lemma scoring_at_least_le_length: "scoring_at_least rs p k \<le> length rs"
  by (simp add: scoring_at_least_def)

lemma scoring_at_least_append:
  "scoring_at_least (xs @ ys) p k = scoring_at_least xs p k + scoring_at_least ys p k"
  by (simp add: scoring_at_least_def)

lemma scoring_at_least_sortedRepos:
  "scoring_at_least (sortedRepos rs p) p k = scoring_at_least rs p k"
  unfolding scoring_at_least_def sortedRepos_def by (simp add: filter_sort)

text \<open>
  The scan over a list in descending order, started at rank \<open>i\<close> with \<open>hIndex = i\<close>: the
  result \<open>h\<close> is at least \<open>i\<close>, at least \<open>h - i\<close> items score \<open>h\<close> or more, and for every larger
  \<open>k\<close> at most \<open>h - i\<close> items score \<open>k\<close> or more.
\<close>

lemma hIndex_scan_char:
  assumes "sorted (map (\<lambda>r. - prop_of p r) rs)"
  shows "i \<le> hIndex_scan p rs i i \<and>
         hIndex_scan p rs i i - i \<le> scoring_at_least rs p (hIndex_scan p rs i i) \<and>
         (\<forall>k > hIndex_scan p rs i i. scoring_at_least rs p k \<le> hIndex_scan p rs i i - i)"
  using assms
proof (induction rs arbitrary: i)
  case Nil
  then show ?case by (simp add: scoring_at_least_def)
next
  case (Cons r rs)
  have below: "prop_of p x \<le> prop_of p r" if "x \<in> set rs" for x
    using Cons.prems that by auto
  show ?case
  proof (cases "prop_of p r \<ge> int i + 1")
    case False
    have "scoring_at_least (r # rs) p k = 0" if "i < k" for k
    proof -
      have "\<not> int k \<le> prop_of p x" if "x \<in> set (r # rs)" for x
        using that False below[of x] \<open>i < k\<close> by auto
      then show ?thesis
        unfolding scoring_at_least_def by (simp add: filter_empty_conv)
    qed
    with False show ?thesis by simp
  next
    case True
    let ?h = "hIndex_scan p rs (i + 1) (i + 1)"
    have tail_sorted: "sorted (map (\<lambda>r. - prop_of p r) rs)"
      using Cons.prems by simp
    from Cons.IH[OF tail_sorted, of "i + 1"]
    have ge: "i + 1 \<le> ?h"
      and enough: "?h - (i + 1) \<le> scoring_at_least rs p ?h"
      and few: "\<forall>k > ?h. scoring_at_least rs p k \<le> ?h - (i + 1)"
      by auto
    have unfold: "hIndex_scan p (r # rs) i i = ?h"
      using True by simp
    have head: "int ?h \<le> prop_of p r"
    proof (cases "?h = i + 1")
      case True
      then show ?thesis using \<open>prop_of p r \<ge> int i + 1\<close> by simp
    next
      case False
      with ge enough have "0 < scoring_at_least rs p ?h" by linarith
      then obtain x where "x \<in> set rs" "int ?h \<le> prop_of p x"
        unfolding scoring_at_least_def by (auto simp: filter_empty_conv)
      with below[of x] show ?thesis by linarith
    qed
    have with_head: "scoring_at_least (r # rs) p ?h = Suc (scoring_at_least rs p ?h)"
      using head by (simp add: scoring_at_least_Cons)
    have at_most_one_more: "scoring_at_least (r # rs) p k \<le> Suc (scoring_at_least rs p k)" for k
      by (simp add: scoring_at_least_Cons)
    show ?thesis
      unfolding unfold
    proof (intro conjI allI impI)
      show "i \<le> ?h" using ge by simp
      show "?h - i \<le> scoring_at_least (r # rs) p ?h"
        using with_head ge enough by linarith
      fix k
      assume "?h < k"
      with few have "scoring_at_least rs p k \<le> ?h - (i + 1)" by simp
      with at_most_one_more[of k] ge show "scoring_at_least (r # rs) p k \<le> ?h - i"
        by linarith
    qed
  qed
qed

lemma sortedRepos_descending:
  "sorted (map (\<lambda>r. - prop_of p r) (sortedRepos rs p))"
  unfolding sortedRepos_def by simp

lemma sortedRepos_of_descending:
  "sorted (map (\<lambda>r. - prop_of p r) rs) \<Longrightarrow> sortedRepos rs p = rs"
  unfolding sortedRepos_def by (rule sort_key_id_if_sorted)

lemma calculateHIndex_enough:
  "calculateHIndex rs p \<le> scoring_at_least rs p (calculateHIndex rs p)"
  using hIndex_scan_char[where i = 0 and p = p and rs = "sortedRepos rs p", OF sortedRepos_descending]
  by (simp add: calculateHIndex_def scoring_at_least_sortedRepos)

lemma calculateHIndex_greatest:
  assumes "k \<le> scoring_at_least rs p k"
  shows "k \<le> calculateHIndex rs p"
proof (rule ccontr)
  assume "\<not> k \<le> calculateHIndex rs p"
  then have "calculateHIndex rs p < k" by simp
  with hIndex_scan_char[where i = 0 and p = p and rs = "sortedRepos rs p", OF sortedRepos_descending]
  have "scoring_at_least rs p k \<le> calculateHIndex rs p"
    by (simp add: calculateHIndex_def scoring_at_least_sortedRepos)
  with assms \<open>calculateHIndex rs p < k\<close> show False by linarith
qed

lemma calculateHIndex_le_length: "calculateHIndex rs p \<le> length rs"
  using calculateHIndex_enough[of rs p] scoring_at_least_le_length[of rs p "calculateHIndex rs p"]
  by linarith

lemma calculateHIndex_Nil: "calculateHIndex [] p = 0"
  by (simp add: calculateHIndex_def sortedRepos_def)

text \<open>Appending items never lowers the index.\<close>

lemma calculateHIndex_append_mono:
  "calculateHIndex xs p \<le> calculateHIndex (xs @ ys) p"
proof (rule calculateHIndex_greatest)
  show "calculateHIndex xs p \<le> scoring_at_least (xs @ ys) p (calculateHIndex xs p)"
    using calculateHIndex_enough[of xs p] by (simp add: scoring_at_least_append)
qed

text \<open>On \<open>n\<close> copies of an item that scores at least \<open>n\<close> the index is \<open>n\<close>.\<close>

lemma calculateHIndex_replicate:
  assumes "int n \<le> prop_of p r"
  shows "calculateHIndex (replicate n r) p = n"
proof -
  have "scoring_at_least (replicate n r) p n = n"
    using assms by (simp add: scoring_at_least_def)
  then have "n \<le> calculateHIndex (replicate n r) p"
    by (intro calculateHIndex_greatest) simp
  moreover have "calculateHIndex (replicate n r) p \<le> n"
    using calculateHIndex_le_length[of "replicate n r" p] by simp
  ultimately show ?thesis by simp
qed

text \<open>
  C1. For every finite list of items and each of the two score fields,
  \<open>calculateHIndex\<close> returns the largest \<open>k\<close> such that at least \<open>k\<close> items of the list
  have a score of at least \<open>k\<close> in that field; on the empty list it returns 0.
\<close>

theorem calculateHIndex_is_largest:
  "calculateHIndex rs p = Max {k. k \<le> scoring_at_least rs p k}
   \<and> calculateHIndex [] p = 0"
proof
  let ?S = "{k. k \<le> scoring_at_least rs p k}"
  have "?S \<subseteq> {..length rs}"
    using scoring_at_least_le_length[of rs p] by (auto intro: order_trans)
  then have fin: "finite ?S" by (rule finite_subset) simp
  have mem: "calculateHIndex rs p \<in> ?S"
    using calculateHIndex_enough[of rs p] by simp
  have ub: "k \<le> calculateHIndex rs p" if "k \<in> ?S" for k
    using that calculateHIndex_greatest[of k rs p] by simp
  have "Max ?S = calculateHIndex rs p"
    using fin ub mem by (rule Max_eqI)
  then show "calculateHIndex rs p = Max ?S" by simp
next
  show "calculateHIndex [] p = 0" by (rule calculateHIndex_Nil)
qed

section \<open>Properties of the REST fetch strategy\<close>

lemma rest_body_tracks_hindex:
  assumes "currentHIndex s = calculateHIndex (repos s) p"
  shows "currentHIndex (rest_body p d s) = calculateHIndex (repos (rest_body p d s)) p"
proof (cases "items d = []")
  case True
  then show ?thesis using assms by (simp add: rest_body_def)
next
  case False
  have "calculateHIndex (repos s) p \<le> calculateHIndex (repos s @ items d) p"
    by (rule calculateHIndex_append_mono)
  with False assms show ?thesis
    by (simp add: rest_body_def Let_def)
qed

lemma rest_loop_tracks_hindex:
  "currentHIndex s = calculateHIndex (repos s) p \<Longrightarrow>
   rest_loop p ups s req = (req', Inr s') \<Longrightarrow>
   currentHIndex s' = calculateHIndex (repos s') p"
proof (induction p ups s req rule: rest_loop.induct)
  case (1 p ups s req)
  show ?case
  proof (cases "rest_cond s")
    case False
    with "1.prems" show ?thesis by (simp add: rest_loop.simps)
  next
    case True
    show ?thesis
    proof (cases "ups (page s)")
      case (OkJson d)
      from "1.prems"(2) True OkJson
      have "rest_loop p ups (rest_body p d s) (req @ [page s]) = (req', Inr s')"
        by (simp add: rest_loop.simps[of p ups s])
      with "1.IH"[OF True OkJson rest_body_tracks_hindex[OF "1.prems"(1)]]
      show ?thesis .
    next
      case (Rejected m)
      with "1.prems" True show ?thesis by (simp add: rest_loop.simps[of p ups s])
    next
      case (NotOk st etext)
      with "1.prems" True show ?thesis by (simp add: rest_loop.simps[of p ups s])
    qed
  qed
qed

lemma rest_loop_requests:
  "\<exists>n. fst (rest_loop p ups s req) = req @ [page s..<page s + n] \<and> (n = 0 \<or> page s + n \<le> 11)"
proof (induction p ups s req rule: rest_loop.induct)
  case (1 p ups s req)
  show ?case
  proof (cases "rest_cond s")
    case False
    then have "fst (rest_loop p ups s req) = req @ [page s..<page s + 0]"
      by (simp add: rest_loop.simps)
    then show ?thesis by blast
  next
    case True
    then have pg: "page s \<le> 10" by (simp add: rest_cond_def)
    show ?thesis
    proof (cases "ups (page s)")
      case (OkJson d)
      from "1.IH"[OF True OkJson] obtain n where
        n: "fst (rest_loop p ups (rest_body p d s) (req @ [page s])) =
              (req @ [page s]) @ [page (rest_body p d s)..<page (rest_body p d s) + n]"
           "n = 0 \<or> page (rest_body p d s) + n \<le> 11"
        by blast
      have "fst (rest_loop p ups s req) = req @ [page s..<page s + Suc n]"
        using True OkJson n(1)
        by (simp add: rest_loop.simps[of p ups s] page_rest_body upt_rec[of "page s"])
      moreover have "page s + Suc n \<le> 11"
        using n(2) pg by (auto simp: page_rest_body)
      ultimately show ?thesis by blast
    next
      case (Rejected m)
      with True have "fst (rest_loop p ups s req) = req @ [page s..<page s + 1]"
        by (simp add: rest_loop.simps[of p ups s])
      with pg show ?thesis by (intro exI[of _ 1]) simp
    next
      case (NotOk st etext)
      with True have "fst (rest_loop p ups s req) = req @ [page s..<page s + 1]"
        by (simp add: rest_loop.simps[of p ups s])
      with pg show ?thesis by (intro exI[of _ 1]) simp
    qed
  qed
qed

lemma rest_reach_page: "rest_reach p ups s \<Longrightarrow> 1 \<le> page s"
  by (induction rule: rest_reach.induct) (simp_all add: rest_init_def page_rest_body)

text \<open>
  A run of the loop from the initial state passes through every such state: started
  there, with the pages before it already requested, the loop ends as the whole run does.
\<close>

lemma rest_reach_on_run:
  "rest_reach p ups s \<Longrightarrow> rest_loop p ups s [1..<page s] = rest_loop p ups rest_init []"
proof (induction rule: rest_reach.induct)
  case rest_reach_init
  show ?case by (simp add: rest_init_def)
next
  case (rest_reach_step s d)
  from rest_reach_page[OF rest_reach_step.hyps(1)]
  have "[1..<page s] @ [page s] = [1..<page (rest_body p d s)]"
    by (simp add: page_rest_body)
  with rest_reach_step show ?case
    by (simp add: rest_loop.simps[of p ups s])
qed







text \<open>
  C7. For every upstream, one call issues at most 10 page requests, for the pages
  1, 2, ... in this order, and it ends, by a return or by a thrown error: the loop is a
  total function, its termination proved with the measure \<open>11 - page\<close>.
\<close>

theorem rest_requests_bounded:
  "\<exists>requested outcome.
     fetchAndCalculateHIndexREST p ups = (requested, outcome) \<and>
     length requested \<le> 10 \<and> requested = [1..<Suc (length requested)]"
proof -
  from rest_loop_requests[of p ups rest_init "[]"]
  obtain n where n: "fst (rest_loop p ups rest_init []) = [1..<1 + n]" "n = 0 \<or> 1 + n \<le> 11"
    by (auto simp: rest_init_def)
  have "fst (fetchAndCalculateHIndexREST p ups) = fst (rest_loop p ups rest_init [])"
    by (simp add: fetchAndCalculateHIndexREST_def split: prod.splits sum.splits)
  with n have "length (fst (fetchAndCalculateHIndexREST p ups)) \<le> 10"
    and "fst (fetchAndCalculateHIndexREST p ups) =
           [1..<Suc (length (fst (fetchAndCalculateHIndexREST p ups)))]"
    by auto
  then show ?thesis
    by (intro exI[of _ "fst (fetchAndCalculateHIndexREST p ups)"]
              exI[of _ "snd (fetchAndCalculateHIndexREST p ups)"]) simp
qed

text \<open>
  C9. Whenever a call returns, the \<open>hIndex\<close> it returns (the incrementally tracked
  \<open>currentHIndex\<close>) is \<open>calculateHIndex\<close> of the full accumulated list that it returns;
  and \<open>calculateHIndex\<close> never decreases when items are appended.
\<close>

theorem rest_hIndex_is_recomputed_index:
  fixes ups :: "nat \<Rightarrow> 'a rest_response"
  assumes "fetchAndCalculateHIndexREST p ups = (requested, Inr r)"
  shows "hIndex r = calculateHIndex (result_repos r) p \<and>
         (\<forall>xs ys :: 'a repo list. calculateHIndex xs p \<le> calculateHIndex (xs @ ys) p)"
proof
  from assms obtain s where loop: "rest_loop p ups rest_init [] = (requested, Inr s)"
    and r: "hIndex r = currentHIndex s" "result_repos r = repos s"
    by (auto simp: fetchAndCalculateHIndexREST_def split: prod.splits sum.splits)
  have "currentHIndex (rest_init :: 'a rest_state) = calculateHIndex (repos (rest_init :: 'a rest_state)) p"
    by (simp add: rest_init_def calculateHIndex_Nil)
  from rest_loop_tracks_hindex[OF this loop] r
  show "hIndex r = calculateHIndex (result_repos r) p" by simp
next
  show "\<forall>xs ys :: 'a repo list. calculateHIndex xs p \<le> calculateHIndex (xs @ ys) p"
    by (simp add: calculateHIndex_append_mono)
qed

lemma small_fetch:
  "fetchAndCalculateHIndexREST Stargazers_count small_upstream =
     ([1], Inr \<lparr>hIndex = 2, result_repos = items small_page, result_totalItems = 3, totalFetched = 3\<rparr>)"
  by (simp add: fetchAndCalculateHIndexREST_def rest_loop.simps rest_init_def rest_cond_def
      small_upstream_def small_page_def rest_body_def perPage_def calculateHIndex_def
      sortedRepos_def Let_def)

theorem rest_hIndex_is_recomputed_index_witness:
  "fetchAndCalculateHIndexREST Stargazers_count small_upstream =
     ([1], Inr \<lparr>hIndex = 2, result_repos = items small_page, result_totalItems = 3, totalFetched = 3\<rparr>)
   \<and> calculateHIndex (items small_page) Stargazers_count = 2"
proof -
  from rest_hIndex_is_recomputed_index[OF small_fetch]
  have "calculateHIndex (items small_page) Stargazers_count = 2" by simp
  with small_fetch show ?thesis by (rule conjI)
qed

section \<open>Properties of the GraphQL fetch strategy\<close>

lemma length_graphql_accumulate:
  "length (allRepos (graphql_accumulate d s)) = length (allRepos s) + length (nodes d)"
  by (simp add: graphql_accumulate_def)

lemma graphql_break_cap: "\<not> graphql_break p s \<Longrightarrow> length (allRepos s) < 500"
  by (auto simp: graphql_break_def Let_def split: if_splits)

lemma graphql_loop_bound:
  assumes "\<forall>k d. ups k = GraphQLData d \<longrightarrow> length (nodes d) \<le> 100"
    and "length (allRepos s) < 500"
  shows "case graphql_loop fuel p ups k s of
           Pending s' \<Rightarrow> length (allRepos s') < 500
         | Thrown e \<Rightarrow> True
         | Returned s' \<Rightarrow> length (allRepos s') \<le> 599"
  using assms(2)
proof (induction fuel arbitrary: k s)
  case 0
  then show ?case by simp
next
  case (Suc fuel)
  show ?case
  proof (cases "hasNextPage s")
    case False
    with Suc.prems show ?thesis by simp
  next
    case True
    show ?thesis
    proof (cases "ups k")
      case (GraphQLData d)
      let ?s = "graphql_accumulate d s"
      from assms(1) GraphQLData have "length (nodes d) \<le> 100" by blast
      with Suc.prems have le: "length (allRepos ?s) \<le> 599"
        by (simp add: length_graphql_accumulate)
      show ?thesis
      proof (cases "graphql_break p ?s")
        case True
        with \<open>hasNextPage s\<close> GraphQLData le show ?thesis by simp
      next
        case False
        from Suc.IH[OF graphql_break_cap[OF False], of "k + 1"] False \<open>hasNextPage s\<close> GraphQLData
        show ?thesis by simp
      qed
    qed (use True in simp_all)
  qed
qed

lemma graphql_loop_bound_full:
  assumes "\<forall>k d. ups k = GraphQLData d \<longrightarrow> length (nodes d) \<le> 100"
    and "\<forall>k d. ups k = GraphQLData d \<longrightarrow> pageInfo_hasNextPage d \<longrightarrow> length (nodes d) = 100"
    and "length (allRepos s) \<le> 500"
    and "hasNextPage s \<longrightarrow> 100 dvd length (allRepos s) \<and> length (allRepos s) < 500"
  shows "case graphql_loop fuel p ups k s of
           Pending s' \<Rightarrow> length (allRepos s') \<le> 500
         | Thrown e \<Rightarrow> True
         | Returned s' \<Rightarrow> length (allRepos s') \<le> 500"
  using assms(3,4)
proof (induction fuel arbitrary: k s)
  case 0
  then show ?case by simp
next
  case (Suc fuel)
  show ?case
  proof (cases "hasNextPage s")
    case False
    with Suc.prems show ?thesis by simp
  next
    case True
    with Suc.prems have dv: "100 dvd length (allRepos s)" and lt: "length (allRepos s) < 500"
      by simp_all
    from dv lt have le400: "length (allRepos s) \<le> 400" by (auto simp: dvd_def)
    show ?thesis
    proof (cases "ups k")
      case (GraphQLData d)
      let ?s = "graphql_accumulate d s"
      from assms(1) GraphQLData have "length (nodes d) \<le> 100" by blast
      with le400 have le: "length (allRepos ?s) \<le> 500"
        by (simp add: length_graphql_accumulate)
      show ?thesis
      proof (cases "graphql_break p ?s")
        case True
        with \<open>hasNextPage s\<close> GraphQLData le show ?thesis by simp
      next
        case False
        have "hasNextPage ?s \<longrightarrow> 100 dvd length (allRepos ?s) \<and> length (allRepos ?s) < 500"
        proof
          assume "hasNextPage ?s"
          then have "pageInfo_hasNextPage d" by (simp add: graphql_accumulate_def)
          with assms(2) GraphQLData have "length (nodes d) = 100" by blast
          with dv have "100 dvd length (allRepos ?s)" by (simp add: length_graphql_accumulate)
          with graphql_break_cap[OF False]
          show "100 dvd length (allRepos ?s) \<and> length (allRepos ?s) < 500" by simp
        qed
        from Suc.IH[OF le this, of "k + 1"] False \<open>hasNextPage s\<close> GraphQLData
        show ?thesis by simp
      qed
    qed (use True in simp_all)
  qed
qed

lemma accumulated_length_fetch:
  "accumulated_length (fetchAndCalculateHIndexGraphQL fuel p ups) =
     (case graphql_loop fuel p ups 0 graphql_init of
        Pending s \<Rightarrow> length (allRepos s) | Thrown e \<Rightarrow> 0 | Returned s \<Rightarrow> length (allRepos s))"
  by (simp add: fetchAndCalculateHIndexGraphQL_def split: outcome.splits)

text \<open>
  C3, as amended. For every sequence of pages of at most 100 nodes each, at every point
  of the fetch loop the accumulated collection has at most 599 items: the test against
  500 comes after a page is appended. It has at most 500 items when every page that
  reports a next page holds exactly 100 nodes. The points of the loop are its head after
  any number of iterations (the run with that much fuel is \<open>Pending\<close> there) and the
  return; the collection after a page is appended is the one at the return, when a
  \<open>break\<close> follows, and else the one at the next loop head.
\<close>

theorem graphql_accumulated_bound:
  assumes "\<forall>k d. ups k = GraphQLData d \<longrightarrow> length (nodes d) \<le> 100"
  shows "accumulated_length (fetchAndCalculateHIndexGraphQL fuel p ups) \<le> 599 \<and>
         ((\<forall>k d. ups k = GraphQLData d \<longrightarrow> pageInfo_hasNextPage d \<longrightarrow> length (nodes d) = 100)
            \<longrightarrow> accumulated_length (fetchAndCalculateHIndexGraphQL fuel p ups) \<le> 500)"
proof
  have "length (allRepos (graphql_init :: 'a graphql_state)) < 500"
    by (simp add: graphql_init_def)
  from graphql_loop_bound[OF assms this, of fuel p 0]
  show "accumulated_length (fetchAndCalculateHIndexGraphQL fuel p ups) \<le> 599"
    by (simp add: accumulated_length_fetch split: outcome.splits)
next
  show "(\<forall>k d. ups k = GraphQLData d \<longrightarrow> pageInfo_hasNextPage d \<longrightarrow> length (nodes d) = 100)
            \<longrightarrow> accumulated_length (fetchAndCalculateHIndexGraphQL fuel p ups) \<le> 500"
  proof
    assume full: "\<forall>k d. ups k = GraphQLData d \<longrightarrow> pageInfo_hasNextPage d \<longrightarrow> length (nodes d) = 100"
    have a: "length (allRepos (graphql_init :: 'a graphql_state)) \<le> 500"
      and b: "hasNextPage (graphql_init :: 'a graphql_state) \<longrightarrow>
            100 dvd length (allRepos (graphql_init :: 'a graphql_state)) \<and>
            length (allRepos (graphql_init :: 'a graphql_state)) < 500"
      by (simp_all add: graphql_init_def)
    from graphql_loop_bound_full[OF assms full a b, of fuel p 0]
    show "accumulated_length (fetchAndCalculateHIndexGraphQL fuel p ups) \<le> 500"
      by (simp add: accumulated_length_fetch split: outcome.splits)
  qed
qed

theorem graphql_accumulated_bound_witness:
  "length (nodes full_node_page) = 100 \<and>
   accumulated_length (fetchAndCalculateHIndexGraphQL 7 Stargazers_count full_node_pages) \<le> 500"
proof -
  have a: "\<forall>k d. full_node_pages k = GraphQLData d \<longrightarrow> length (nodes d) \<le> 100"
    by (simp add: full_node_pages_def full_node_page_def)
  have b: "\<forall>k d. full_node_pages k = GraphQLData d \<longrightarrow> pageInfo_hasNextPage d \<longrightarrow> length (nodes d) = 100"
    by (simp add: full_node_pages_def full_node_page_def)
  have "length (nodes full_node_page) = 100"
    by (simp add: full_node_page_def)
  with graphql_accumulated_bound[OF a, of 7 Stargazers_count] b show ?thesis by blast
qed

lemma short_pages_any_request:
  "graphql_loop fuel p short_pages k s = graphql_loop fuel p short_pages 0 s"
proof (induction fuel arbitrary: k s)
  case 0
  show ?case by simp
next
  case (Suc fuel)
  show ?case
    using Suc.IH[of "k + 1"] Suc.IH[of "0 + 1"]
    by (simp add: short_pages_def Let_def)
qed

lemma short_pages_step:
  assumes "0 < fuel" "n + 99 \<le> 1000"
  shows "graphql_loop fuel Stargazers_count short_pages 0
           \<lparr>allRepos = replicate n \<lparr>repo_id = 7, stargazers_count = 1000, forks_count = 0\<rparr>,
            hasNextPage = True, endCursor = c, totalCount = t\<rparr> =
         (if n + 99 \<ge> 500 then
            Returned \<lparr>allRepos = replicate (n + 99) \<lparr>repo_id = 7, stargazers_count = 1000, forks_count = 0\<rparr>,
                      hasNextPage = True, endCursor = Some ''Y3Vyc29y'', totalCount = 5000\<rparr>
          else graphql_loop (fuel - 1) Stargazers_count short_pages 0
            \<lparr>allRepos = replicate (n + 99) \<lparr>repo_id = 7, stargazers_count = 1000, forks_count = 0\<rparr>,
             hasNextPage = True, endCursor = Some ''Y3Vyc29y'', totalCount = 5000\<rparr>)"
proof -
  from assms(1) obtain f where f: "fuel = Suc f" by (cases fuel) auto
  have h: "calculateHIndex (replicate (n + 99) \<lparr>repo_id = 7::nat, stargazers_count = 1000, forks_count = 0\<rparr>) Stargazers_count = n + 99"
    using assms(2) by (intro calculateHIndex_replicate) simp
  have "graphql_accumulate short_page
          \<lparr>allRepos = replicate n \<lparr>repo_id = 7, stargazers_count = 1000, forks_count = 0\<rparr>,
           hasNextPage = True, endCursor = c, totalCount = t\<rparr> =
        \<lparr>allRepos = replicate (n + 99) \<lparr>repo_id = 7, stargazers_count = 1000, forks_count = 0\<rparr>,
         hasNextPage = True, endCursor = Some ''Y3Vyc29y'', totalCount = 5000\<rparr>"
    by (simp add: short_page_def graphql_accumulate_def to_rest_format_def replicate_add)
  then show ?thesis
    unfolding f
    using short_pages_any_request[of f Stargazers_count "0 + 1"]
    by (simp add: short_pages_def graphql_break_def h)
qed

text \<open>
  C3 as stated fails: with pages of 99 nodes that each report a next page, and scores
  high enough for the index to equal the number of items, the collection holds 495 items
  after five pages, the loop goes on, and the sixth page brings it to 594.
\<close>

theorem graphql_cap_counterexample:
  "length (nodes short_page) \<le> 100 \<and>
   accumulated_length (fetchAndCalculateHIndexGraphQL 6 Stargazers_count short_pages) = 594 \<and>
   \<not> accumulated_length (fetchAndCalculateHIndexGraphQL 6 Stargazers_count short_pages) \<le> 500"
proof -
  let ?r = "\<lparr>repo_id = 7::nat, stargazers_count = 1000, forks_count = 0\<rparr>"
  let ?st = "\<lambda>n. \<lparr>allRepos = replicate n ?r, hasNextPage = True,
                    endCursor = Some ''Y3Vyc29y'', totalCount = 5000\<rparr>"
  have "graphql_loop 6 Stargazers_count short_pages 0 graphql_init =
        graphql_loop 5 Stargazers_count short_pages 0 (?st 99)"
    using short_pages_step[of 6 0 None 0] by (simp add: graphql_init_def)
  also have "\<dots> = graphql_loop 4 Stargazers_count short_pages 0 (?st 198)"
    using short_pages_step[of 5 99 "Some ''Y3Vyc29y''" 5000] by simp
  also have "\<dots> = graphql_loop 3 Stargazers_count short_pages 0 (?st 297)"
    using short_pages_step[of 4 198 "Some ''Y3Vyc29y''" 5000] by simp
  also have "\<dots> = graphql_loop 2 Stargazers_count short_pages 0 (?st 396)"
    using short_pages_step[of 3 297 "Some ''Y3Vyc29y''" 5000] by simp
  also have "\<dots> = graphql_loop 1 Stargazers_count short_pages 0 (?st 495)"
    using short_pages_step[of 2 396 "Some ''Y3Vyc29y''" 5000] by simp
  also have "\<dots> = Returned (?st 594)"
    using short_pages_step[of 1 495 "Some ''Y3Vyc29y''" 5000] by simp
  finally show ?thesis
    by (simp add: accumulated_length_fetch short_page_def)
qed

section \<open>Properties of the time window generator\<close>

lemma currentQuarter_ceiling: "\<lceil>real_of_int m / 3\<rceil> = (m + 2) div 3"
  by linarith

lemma smod_eq_0_iff_dvd: "(k::int) smod l = 0 \<longleftrightarrow> l dvd k"
proof -
  have "k smod l = 0 \<longleftrightarrow> k = 0 \<or> \<bar>k\<bar> mod \<bar>l\<bar> = 0"
    by (simp add: smod_int_alt_def sgn_eq_0_iff)
  also have "\<dots> \<longleftrightarrow> k = 0 \<or> \<bar>l\<bar> dvd \<bar>k\<bar>"
    by (simp only: dvd_eq_mod_eq_0)
  also have "\<dots> \<longleftrightarrow> l dvd k"
    by auto
  finally show ?thesis .
qed

lemma isLeapYear_iff: "isLeapYear y \<longleftrightarrow> 4 dvd y \<and> (\<not> 100 dvd y \<or> 400 dvd y)"
proof -
  have "400 dvd y \<Longrightarrow> 4 dvd y"
    by (rule dvd_trans[of 4 400 y]) simp_all
  then show ?thesis
    unfolding isLeapYear_def smod_eq_0_iff_dvd by blast
qed

lemma endDay_last_day: "endDay y m = last_day_of_month y m"
  by (auto simp: endDay_def last_day_of_month_def isLeapYear_iff)

lemma set_year_windows:
  "set (generateTimeWindows startYear endYear ''year'' now) =
     (\<Union>y \<in> {startYear..endYear}. if y = yyyy now then {} else
        {\<lparr>window_start = \<lparr>yyyy = y, mm = 1, dd = 1\<rparr>, window_end = \<lparr>yyyy = y, mm = 12, dd = 31\<rparr>\<rparr>})"
  by (simp add: generateTimeWindows_def if_distrib[of set] cong: if_cong)

lemma set_quarter_windows:
  "set (generateTimeWindows startYear endYear ''quarter'' now) =
     (\<Union>y \<in> {startYear..endYear}. \<Union>q \<in> {1..4}.
        if y = yyyy now \<and> q \<ge> (mm now + 2) div 3 then {} else
        {\<lparr>window_start = \<lparr>yyyy = y, mm = (q - 1) * 3 + 1, dd = 1\<rparr>,
          window_end = \<lparr>yyyy = y, mm = q * 3, dd = endDay y (q * 3)\<rparr>\<rparr>})"
  unfolding generateTimeWindows_def Let_def set_concat set_map image_image set_upto
  by (simp add: if_distrib[of set] cong: if_cong)

lemma set_month_windows:
  "set (generateTimeWindows startYear endYear ''month'' now) =
     (\<Union>y \<in> {startYear..endYear}. \<Union>m \<in> {1..12}.
        if y = yyyy now \<and> m \<ge> mm now then {} else
        {\<lparr>window_start = \<lparr>yyyy = y, mm = m, dd = 1\<rparr>,
          window_end = \<lparr>yyyy = y, mm = m, dd = endDay y m\<rparr>\<rparr>})"
  unfolding generateTimeWindows_def Let_def set_concat set_map image_image set_upto
  by (simp add: if_distrib[of set] cong: if_cong)


lemma other_granularity:
  "g \<noteq> ''year'' \<Longrightarrow> g \<noteq> ''quarter'' \<Longrightarrow> g \<noteq> ''month'' \<Longrightarrow>
   generateTimeWindows startYear endYear g now = []"
  by (simp add: generateTimeWindows_def)

text \<open>
  C4. For every start year, end year, granularity and current date, no window that
  \<open>generateTimeWindows\<close> emits contains the current date.
\<close>

theorem no_window_contains_now:
  assumes "w \<in> set (generateTimeWindows startYear endYear granularity now)"
  shows "\<not> window_contains w now"
proof -
  consider "granularity = ''year''" | "granularity = ''quarter''" | "granularity = ''month''"
    | "granularity \<noteq> ''year''" "granularity \<noteq> ''quarter''" "granularity \<noteq> ''month''"
    by blast
  then show ?thesis
  proof cases
    case 1
    from assms[unfolded 1 set_year_windows] obtain y where "y \<noteq> yyyy now"
      "w = \<lparr>window_start = \<lparr>yyyy = y, mm = 1, dd = 1\<rparr>, window_end = \<lparr>yyyy = y, mm = 12, dd = 31\<rparr>\<rparr>"
      by (auto split: if_splits)
    then show ?thesis by (auto simp: window_contains_def date_le_def)
  next
    case 2
    from assms[unfolded 2 set_quarter_windows] obtain y q where yq: "\<not> (y = yyyy now \<and> q \<ge> (mm now + 2) div 3)"
      and w: "w = \<lparr>window_start = \<lparr>yyyy = y, mm = (q - 1) * 3 + 1, dd = 1\<rparr>,
          window_end = \<lparr>yyyy = y, mm = q * 3, dd = endDay y (q * 3)\<rparr>\<rparr>"
      by (auto split: if_splits)
    show ?thesis
    proof (cases "y = yyyy now")
      case True
      with yq have "q < (mm now + 2) div 3" by simp
      then have "q * 3 < mm now" by linarith
      with w True show ?thesis by (simp add: window_contains_def date_le_def)
    next
      case False
      with w show ?thesis by (auto simp: window_contains_def date_le_def)
    qed
  next
    case 3
    from assms[unfolded 3 set_month_windows] obtain y m where ym: "\<not> (y = yyyy now \<and> m \<ge> mm now)"
      and w: "w = \<lparr>window_start = \<lparr>yyyy = y, mm = m, dd = 1\<rparr>,
          window_end = \<lparr>yyyy = y, mm = m, dd = endDay y m\<rparr>\<rparr>"
      by (auto split: if_splits)
    then show ?thesis by (auto simp: window_contains_def date_le_def)
  next
    case 4
    with assms show ?thesis by (simp add: other_granularity)
  qed
qed

theorem no_window_contains_now_witness:
  "\<lparr>window_start = \<lparr>yyyy = 2025, mm = 1, dd = 1\<rparr>, window_end = \<lparr>yyyy = 2025, mm = 12, dd = 31\<rparr>\<rparr>
     \<in> set (generateTimeWindows 2025 2026 ''year'' today) \<and>
   \<not> window_contains
       \<lparr>window_start = \<lparr>yyyy = 2025, mm = 1, dd = 1\<rparr>, window_end = \<lparr>yyyy = 2025, mm = 12, dd = 31\<rparr>\<rparr>
       today \<and>
   generateTimeWindows 2025 2026 ''year'' today =
     [\<lparr>window_start = \<lparr>yyyy = 2025, mm = 1, dd = 1\<rparr>, window_end = \<lparr>yyyy = 2025, mm = 12, dd = 31\<rparr>\<rparr>]"
proof -
  have g: "generateTimeWindows 2025 2026 ''year'' today =
     [\<lparr>window_start = \<lparr>yyyy = 2025, mm = 1, dd = 1\<rparr>, window_end = \<lparr>yyyy = 2025, mm = 12, dd = 31\<rparr>\<rparr>]"
    by (simp add: generateTimeWindows_def today_def)
  then have "\<lparr>window_start = \<lparr>yyyy = 2025, mm = 1, dd = 1\<rparr>, window_end = \<lparr>yyyy = 2025, mm = 12, dd = 31\<rparr>\<rparr>
     \<in> set (generateTimeWindows 2025 2026 ''year'' today)" by simp
  from this no_window_contains_now[OF this] g show ?thesis by blast
qed

text \<open>
  C5. Every quarter or month window that \<open>generateTimeWindows\<close> emits ends on the last
  day of its final calendar month: 30 for April, June, September and November, 31 for
  the other months except February, and for February 29 if and only if the year is
  divisible by 4 and (not divisible by 100, or divisible by 400), else 28.
\<close>

theorem window_end_is_last_day:
  assumes "granularity = ''quarter'' \<or> granularity = ''month''"
    and "w \<in> set (generateTimeWindows startYear endYear granularity now)"
  shows "dd (window_end w) = last_day_of_month (yyyy (window_end w)) (mm (window_end w))"
proof -
  from assms(1) show ?thesis
  proof
    assume g: "granularity = ''quarter''"
    from assms(2)[unfolded g set_quarter_windows] show ?thesis
      by (auto simp: endDay_last_day split: if_splits)
  next
    assume g: "granularity = ''month''"
    from assms(2)[unfolded g set_month_windows] show ?thesis
      by (auto simp: endDay_last_day split: if_splits)
  qed
qed

theorem window_end_is_last_day_witness:
  "\<lparr>window_start = \<lparr>yyyy = 2020, mm = 2, dd = 1\<rparr>, window_end = \<lparr>yyyy = 2020, mm = 2, dd = 29\<rparr>\<rparr>
     \<in> set (generateTimeWindows 2020 2020 ''month'' today) \<and>
   last_day_of_month 2020 2 = 29"
proof -
  let ?w = "\<lparr>window_start = \<lparr>yyyy = 2020, mm = 2, dd = 1\<rparr>, window_end = \<lparr>yyyy = 2020, mm = 2, dd = 29\<rparr>\<rparr>"
  have e: "endDay 2020 2 = 29"
    by (simp add: endDay_def isLeapYear_iff)
  have m: "?w \<in> set (generateTimeWindows 2020 2020 ''month'' today)"
    unfolding set_month_windows
    by (rule UN_I[where a = 2020], simp, rule UN_I[where a = 2]) (simp_all add: today_def e)
  have g: "''month'' = ''quarter'' \<or> ''month'' = ''month''" by simp
  from window_end_is_last_day[OF g m] m show ?thesis by simp
qed

text \<open>
  C10. The exclusion skips windows of the current calendar year only: for every year
  \<open>y\<close> of the requested range other than the current year, in particular every year
  after it, the year window, the four quarter windows and the twelve month windows of
  \<open>y\<close> are all emitted.
\<close>

theorem other_years_are_emitted:
  assumes "startYear \<le> y" "y \<le> endYear" "y \<noteq> yyyy now"
  shows "\<lparr>window_start = \<lparr>yyyy = y, mm = 1, dd = 1\<rparr>,
          window_end = \<lparr>yyyy = y, mm = 12, dd = 31\<rparr>\<rparr>
           \<in> set (generateTimeWindows startYear endYear ''year'' now)
       \<and> (\<forall>q \<in> {1..4}.
            \<lparr>window_start = \<lparr>yyyy = y, mm = (q - 1) * 3 + 1, dd = 1\<rparr>,
             window_end = \<lparr>yyyy = y, mm = q * 3, dd = endDay y (q * 3)\<rparr>\<rparr>
              \<in> set (generateTimeWindows startYear endYear ''quarter'' now))
       \<and> (\<forall>m \<in> {1..12}.
            \<lparr>window_start = \<lparr>yyyy = y, mm = m, dd = 1\<rparr>,
             window_end = \<lparr>yyyy = y, mm = m, dd = endDay y m\<rparr>\<rparr>
              \<in> set (generateTimeWindows startYear endYear ''month'' now))"
proof (intro conjI ballI)
  show "\<lparr>window_start = \<lparr>yyyy = y, mm = 1, dd = 1\<rparr>,
          window_end = \<lparr>yyyy = y, mm = 12, dd = 31\<rparr>\<rparr>
           \<in> set (generateTimeWindows startYear endYear ''year'' now)"
    unfolding set_year_windows using assms by (intro UN_I[where a = y]) simp_all
next
  fix q :: int assume "q \<in> {1..4}"
  show "\<lparr>window_start = \<lparr>yyyy = y, mm = (q - 1) * 3 + 1, dd = 1\<rparr>,
             window_end = \<lparr>yyyy = y, mm = q * 3, dd = endDay y (q * 3)\<rparr>\<rparr>
              \<in> set (generateTimeWindows startYear endYear ''quarter'' now)"
    unfolding set_quarter_windows
  proof (rule UN_I[where a = y])
    show "y \<in> {startYear..endYear}" using assms by simp
    show "\<lparr>window_start = \<lparr>yyyy = y, mm = (q - 1) * 3 + 1, dd = 1\<rparr>,
             window_end = \<lparr>yyyy = y, mm = q * 3, dd = endDay y (q * 3)\<rparr>\<rparr>
          \<in> (\<Union>q \<in> {1..4}.
        if y = yyyy now \<and> q \<ge> (mm now + 2) div 3 then {} else
        {\<lparr>window_start = \<lparr>yyyy = y, mm = (q - 1) * 3 + 1, dd = 1\<rparr>,
          window_end = \<lparr>yyyy = y, mm = q * 3, dd = endDay y (q * 3)\<rparr>\<rparr>})"
      using \<open>q \<in> {1..4}\<close> assms(3) by (intro UN_I[where a = q]) simp_all
  qed
next
  fix m :: int assume "m \<in> {1..12}"
  show "\<lparr>window_start = \<lparr>yyyy = y, mm = m, dd = 1\<rparr>,
             window_end = \<lparr>yyyy = y, mm = m, dd = endDay y m\<rparr>\<rparr>
              \<in> set (generateTimeWindows startYear endYear ''month'' now)"
    unfolding set_month_windows
  proof (rule UN_I[where a = y])
    show "y \<in> {startYear..endYear}" using assms by simp
    show "\<lparr>window_start = \<lparr>yyyy = y, mm = m, dd = 1\<rparr>,
             window_end = \<lparr>yyyy = y, mm = m, dd = endDay y m\<rparr>\<rparr>
          \<in> (\<Union>m \<in> {1..12}.
        if y = yyyy now \<and> m \<ge> mm now then {} else
        {\<lparr>window_start = \<lparr>yyyy = y, mm = m, dd = 1\<rparr>,
          window_end = \<lparr>yyyy = y, mm = m, dd = endDay y m\<rparr>\<rparr>})"
      using \<open>m \<in> {1..12}\<close> assms(3) by (intro UN_I[where a = m]) simp_all
  qed
qed

theorem other_years_are_emitted_witness:
  "\<lparr>window_start = \<lparr>yyyy = 2027, mm = 1, dd = 1\<rparr>, window_end = \<lparr>yyyy = 2027, mm = 12, dd = 31\<rparr>\<rparr>
     \<in> set (generateTimeWindows 2025 2027 ''year'' today) \<and>
   \<lparr>window_start = \<lparr>yyyy = 2027, mm = 10, dd = 1\<rparr>, window_end = \<lparr>yyyy = 2027, mm = 12, dd = 31\<rparr>\<rparr>
     \<in> set (generateTimeWindows 2025 2027 ''quarter'' today) \<and>
   \<lparr>window_start = \<lparr>yyyy = 2027, mm = 12, dd = 1\<rparr>, window_end = \<lparr>yyyy = 2027, mm = 12, dd = 31\<rparr>\<rparr>
     \<in> set (generateTimeWindows 2025 2027 ''month'' today) \<and>
   yyyy today < 2027"
proof -
  have a: "(2025::int) \<le> 2027" "(2027::int) \<le> 2027" "(2027::int) \<noteq> yyyy today"
    by (simp_all add: today_def)
  have q: "(4::int) \<in> {1..4}" and m: "(12::int) \<in> {1..12}" by simp_all
  have e: "endDay 2027 12 = 31" by (simp add: endDay_def)
  note emitted = other_years_are_emitted[OF a]
  from emitted have y: "\<lparr>window_start = \<lparr>yyyy = 2027, mm = 1, dd = 1\<rparr>,
      window_end = \<lparr>yyyy = 2027, mm = 12, dd = 31\<rparr>\<rparr>
     \<in> set (generateTimeWindows 2025 2027 ''year'' today)" by (rule conjunct1)
  from emitted have "\<forall>q \<in> {1..4}.
            \<lparr>window_start = \<lparr>yyyy = 2027, mm = (q - 1) * 3 + 1, dd = 1\<rparr>,
             window_end = \<lparr>yyyy = 2027, mm = q * 3, dd = endDay 2027 (q * 3)\<rparr>\<rparr>
              \<in> set (generateTimeWindows 2025 2027 ''quarter'' today)" by blast
  from bspec[OF this q] e have qw: "\<lparr>window_start = \<lparr>yyyy = 2027, mm = 10, dd = 1\<rparr>,
      window_end = \<lparr>yyyy = 2027, mm = 12, dd = 31\<rparr>\<rparr>
     \<in> set (generateTimeWindows 2025 2027 ''quarter'' today)" by simp
  from emitted have "\<forall>m \<in> {1..12}.
            \<lparr>window_start = \<lparr>yyyy = 2027, mm = m, dd = 1\<rparr>,
             window_end = \<lparr>yyyy = 2027, mm = m, dd = endDay 2027 m\<rparr>\<rparr>
              \<in> set (generateTimeWindows 2025 2027 ''month'' today)" by blast
  from bspec[OF this m] e have mw: "\<lparr>window_start = \<lparr>yyyy = 2027, mm = 12, dd = 1\<rparr>,
      window_end = \<lparr>yyyy = 2027, mm = 12, dd = 31\<rparr>\<rparr>
     \<in> set (generateTimeWindows 2025 2027 ''month'' today)" by simp
  have "yyyy today < 2027" by (simp add: today_def)
  with y qw mw show ?thesis by blast
qed

section \<open>Properties of the merge and of the trend aggregator\<close>

lemma map_fst_Map_set:
  "map fst (Map_set m k v) = (if k \<in> fst ` set m then map fst m else map fst m @ [k])"
  by (induction m k v rule: Map_set.induct) auto

lemma map_of_Map_set: "map_of (Map_set m k v) = (map_of m)(k \<mapsto> v)"
  by (induction m k v rule: Map_set.induct) (auto simp: fun_eq_iff)

lemma distinct_Map_set: "distinct (map fst m) \<Longrightarrow> distinct (map fst (Map_set m k v))"
  by (simp add: map_fst_Map_set)

lemma keys_Map_set: "fst ` set (Map_set m k v) = insert k (fst ` set m)"
  using arg_cong[OF map_fst_Map_set[of m k v], of set] by (auto simp: image_iff)

lemma foldl_Map_set:
  "distinct (map fst m) \<Longrightarrow>
   distinct (map fst (foldl (\<lambda>m (k, v). Map_set m k v) m es)) \<and>
   fst ` set (foldl (\<lambda>m (k, v). Map_set m k v) m es) = fst ` set m \<union> fst ` set es \<and>
   map_of (foldl (\<lambda>m (k, v). Map_set m k v) m es) = map_of m ++ map_of (rev es)"
proof (induction es arbitrary: m)
  case Nil
  then show ?case by simp
next
  case (Cons e es)
  obtain k v where e: "e = (k, v)" by (cases e)
  let ?f = "\<lambda>m (k, v). Map_set m k v"
  from Cons.IH[OF distinct_Map_set[OF Cons.prems, of k v]]
  have d: "distinct (map fst (foldl ?f (Map_set m k v) es))"
    and ks: "fst ` set (foldl ?f (Map_set m k v) es) = fst ` set (Map_set m k v) \<union> fst ` set es"
    and mo: "map_of (foldl ?f (Map_set m k v) es) = map_of (Map_set m k v) ++ map_of (rev es)"
    by simp_all
  have step: "foldl ?f m (e # es) = foldl ?f (Map_set m k v) es"
    by (simp add: e)
  have "map_of (Map_set m k v) ++ map_of (rev es) = map_of m ++ map_of (rev (e # es))"
    by (rule ext) (simp add: map_of_Map_set e map_add_def split: option.splits)
  with d ks mo show ?case
    unfolding step by (simp add: keys_Map_set e)
qed

lemma new_Map_props:
  "distinct (map fst (new_Map es))"
  "fst ` set (new_Map es) = fst ` set es"
  "map_of (new_Map es) = map_of (rev es)"
  using foldl_Map_set[of "[]" es] by (simp_all add: new_Map_def)

lemma length_new_Map: "length (new_Map es) = card (fst ` set es)"
proof -
  have "length (new_Map es) = length (map fst (new_Map es))" by simp
  also have "\<dots> = card (set (map fst (new_Map es)))"
    using new_Map_props(1)[of es] by (simp only: distinct_card)
  also have "\<dots> = card (fst ` set es)"
    using new_Map_props(2)[of es] by simp
  finally show ?thesis .
qed

lemma new_Map_entries_keyed:
  assumes "(k, r) \<in> set (new_Map (entries_of rs))"
  shows "map_of (rev (entries_of rs)) k = Some r"
  using assms new_Map_props(1,3)[of "entries_of rs"] by (metis map_of_is_SomeI)

lemma map_of_entries_Some:
  "map_of (rev (entries_of rs)) k = Some r \<Longrightarrow> r \<in> set rs \<and> repo_id r = k"
  by (auto dest!: map_of_SomeD simp: entries_of_def)

lemma map_of_entries_None:
  "map_of (rev (entries_of rs)) k = None \<longleftrightarrow> k \<notin> ids rs"
  by (auto simp: map_of_eq_None_iff entries_of_def ids_def image_iff)

lemma merged_allRepos_alt:
  "merged_allRepos A B = map snd (new_Map (entries_of (A @ B)))"
  by (simp add: merged_allRepos_def Map_values_def entries_of_def)

lemma merged_member:
  assumes "r \<in> set (merged_allRepos A B)"
  shows "map_of (rev (entries_of B)) (repo_id r) = Some r \<or>
         (repo_id r \<notin> ids B \<and> map_of (rev (entries_of A)) (repo_id r) = Some r)"
proof -
  from assms obtain k where kr: "(k, r) \<in> set (new_Map (entries_of (A @ B)))"
    by (auto simp: merged_allRepos_alt)
  then have m: "map_of (rev (entries_of (A @ B))) k = Some r"
    by (rule new_Map_entries_keyed)
  then have "repo_id r = k" by (auto dest: map_of_entries_Some)
  with m have "(map_of (rev (entries_of A)) ++ map_of (rev (entries_of B))) (repo_id r) = Some r"
    by (simp add: entries_of_def)
  then show ?thesis
    by (auto simp: map_add_Some_iff map_of_entries_None)
qed

lemma map_repo_id_merged:
  "map repo_id (merged_allRepos A B) = map fst (new_Map (entries_of (A @ B)))"
proof -
  have "repo_id r = k" if "(k, r) \<in> set (new_Map (entries_of (A @ B)))" for k r
    using new_Map_entries_keyed[OF that] by (auto dest: map_of_entries_Some)
  then show ?thesis
    unfolding merged_allRepos_alt by (auto simp: )
qed


lemma keys_entries_of: "fst ` set (entries_of rs) = ids rs"
  by (simp add: entries_of_def ids_def image_image)

lemma ids_append: "ids (A @ B) = ids A \<union> ids B"
  by (simp add: ids_def image_Un)

lemma length_merged_allRepos: "length (merged_allRepos A B) = card (ids A \<union> ids B)"
proof -
  show ?thesis
    by (simp add: merged_allRepos_alt length_new_Map keys_entries_of ids_append)
qed

text \<open>
  C6 as stated fails for a pass that lists an id twice (offset pagination can deliver
  an item on two pages): the two lists share no id, and the merge has one item, not two.
\<close>

theorem merged_size_counterexample:
  "card (ids twice_listed \<inter> ids []) = 0 \<and>
   length (merged_allRepos twice_listed []) = 1 \<and>
   length twice_listed + length ([] :: nat repo list) - card (ids twice_listed \<inter> ids []) = 2"
  by (simp add: twice_listed_def ids_def merged_allRepos_def new_Map_def Map_values_def)

text \<open>
  C6, as amended. For all lists \<open>A\<close> (star pass) and \<open>B\<close> (fork pass): every id of the
  merge occurs in it once, the ids of the merge are those of \<open>A\<close> and \<open>B\<close>, and the item
  kept for an id that \<open>B\<close> has is an item of \<open>B\<close> (else one of \<open>A\<close>). When neither list
  repeats an id and they share \<open>k\<close> ids, the merge has \<open>|A| + |B| - k\<close> items.
\<close>

theorem merged_allRepos_dedup:
  "distinct (map repo_id (merged_allRepos A B))
   \<and> ids (merged_allRepos A B) = ids A \<union> ids B
   \<and> (\<forall>r \<in> set (merged_allRepos A B). if repo_id r \<in> ids B then r \<in> set B else r \<in> set A)
   \<and> (distinct (map repo_id A) \<and> distinct (map repo_id B) \<longrightarrow>
        length (merged_allRepos A B) = length A + length B - card (ids A \<inter> ids B))"
proof (intro conjI ballI impI)
  show d: "distinct (map repo_id (merged_allRepos A B))"
    by (simp only: map_repo_id_merged new_Map_props(1))
  have "set (map repo_id (merged_allRepos A B)) = fst ` set (entries_of (A @ B))"
    by (simp only: map_repo_id_merged set_map new_Map_props(2))
  then show "ids (merged_allRepos A B) = ids A \<union> ids B"
    by (simp add: keys_entries_of ids_append) (simp add: ids_def)
next
  fix r assume "r \<in> set (merged_allRepos A B)"
  from merged_member[OF this]
  show "if repo_id r \<in> ids B then r \<in> set B else r \<in> set A"
    using map_of_entries_Some[of A "repo_id r" r] map_of_entries_Some[of B "repo_id r" r]
    by (auto simp: ids_def)
next
  assume "distinct (map repo_id A) \<and> distinct (map repo_id B)"
  then have "card (ids A) = length A" "card (ids B) = length B"
    using distinct_card[of "map repo_id A"] distinct_card[of "map repo_id B"]
    by (simp_all add: ids_def)
  moreover have "card (ids A \<union> ids B) + card (ids A \<inter> ids B) = card (ids A) + card (ids B)"
    by (rule card_Un_Int[symmetric]) (simp_all add: ids_def)
  ultimately show "length (merged_allRepos A B) = length A + length B - card (ids A \<inter> ids B)"
    by (simp add: length_merged_allRepos)
qed

theorem merged_allRepos_dedup_witness:
  "distinct (map repo_id star_pass) \<and> distinct (map repo_id fork_pass) \<and>
   card (ids star_pass \<inter> ids fork_pass) = 1 \<and>
   length (merged_allRepos star_pass fork_pass) = 3 \<and>
   \<lparr>repo_id = 2, stargazers_count = 8, forks_count = 6\<rparr> \<in> set (merged_allRepos star_pass fork_pass)"
proof -
  have d: "distinct (map repo_id star_pass) \<and> distinct (map repo_id fork_pass)"
    by (simp add: star_pass_def fork_pass_def)
  have k: "ids star_pass \<inter> ids fork_pass = {2}"
    by (auto simp: star_pass_def fork_pass_def ids_def)
  have m: "merged_allRepos star_pass fork_pass =
      [\<lparr>repo_id = 1, stargazers_count = 9, forks_count = 2\<rparr>,
       \<lparr>repo_id = 2, stargazers_count = 8, forks_count = 6\<rparr>,
       \<lparr>repo_id = 3, stargazers_count = 1, forks_count = 4\<rparr>]"
    by (simp add: star_pass_def fork_pass_def merged_allRepos_def new_Map_def Map_values_def)
  from merged_allRepos_dedup[of star_pass fork_pass] d
  have "length (merged_allRepos star_pass fork_pass) =
          length star_pass + length fork_pass - card (ids star_pass \<inter> ids fork_pass)"
    by blast
  with d k m show ?thesis by (simp add: star_pass_def fork_pass_def)
qed







end
